theory Spec2Isabelle
  imports Main "HOL-Library.Word"
begin

unbundle bit_operations_syntax

section \<open>Compilation target\<close>

text \<open>
  Two things in \<^verbatim>\<open>art.c\<close> are decided by the compiler, not by the source text:
  whether \<^verbatim>\<open>__SSE2__\<close> is defined (which lookup \<^verbatim>\<open>findChild\<close> calls for a Node16)
  and whether plain \<^verbatim>\<open>char\<close> is a signed type (it is on x86-64, where SSE2 lives; it is
  not on ARM Linux). Both are fields of the target the functions below are compiled for.
\<close>

record target =
  sse2 :: bool
  char_signed :: bool

type_synonym cchar = "8 word"

text \<open>The value a \<^verbatim>\<open>char\<close> has after integer promotion.\<close>

definition char_val :: "target \<Rightarrow> cchar \<Rightarrow> int" where
  "char_val tgt c = (if char_signed tgt then sint c else uint c)"

definition INT_MIN :: int where
  "INT_MIN = - (2 ^ 31)"

definition MAX_PREFIX_LENGTH :: nat where
  "MAX_PREFIX_LENGTH = 32"

text \<open>\<^verbatim>\<open>#define EMPTY_KEY ((unsigned char)255)\<close>\<close>

definition EMPTY_KEY :: "8 word" where
  "EMPTY_KEY = 255"

section \<open>Data structures\<close>

text \<open>
  \<^verbatim>\<open>typedef enum { NODE4, NODE16, NODE48, NODE256, LEAF } NodeType;\<close>
  A C enumeration is an integer type: the tag field can hold values other than the five
  enumerators, and \<^verbatim>\<open>findChild\<close> has a fall-through for them.
\<close>

type_synonym NodeType = int

definition NODE4 :: NodeType where "NODE4 = 0"
definition NODE16 :: NodeType where "NODE16 = 1"
definition NODE48 :: NodeType where "NODE48 = 2"
definition NODE256 :: NodeType where "NODE256 = 3"
definition LEAF :: NodeType where "LEAF = 4"

datatype ptr = NULL | Addr nat

record Node =
  type :: NodeType

record Node4 =
  node :: Node
  prefix :: "cchar list"
  prefixLen :: int
  keys :: "cchar list"
  children :: "ptr list"
  count :: int

record Node16 =
  node :: Node
  prefix :: "cchar list"
  prefixLen :: int
  keys :: "cchar list"
  children :: "ptr list"
  count :: int

record Node48 =
  node :: Node
  prefix :: "cchar list"
  prefixLen :: int
  keys :: "8 word list"
  children :: "ptr list"

record Node256 =
  node :: Node
  prefix :: "cchar list"
  prefixLen :: int
  children :: "ptr list"

record LeafNode =
  node :: Node
  key :: ptr
  "value" :: ptr

record ART =
  root :: ptr
  size' :: nat

text \<open>
  The arrays of a struct have the length its declaration gives them. A list carries no
  length in its type, so the declared lengths are a predicate on the model.
\<close>

definition Node4_layout :: "Node4 \<Rightarrow> bool" where
  "Node4_layout n \<longleftrightarrow>
     length (Node4.prefix n) = MAX_PREFIX_LENGTH \<and> length (Node4.keys n) = 4 \<and>
     length (Node4.children n) = 4"

definition Node16_layout :: "Node16 \<Rightarrow> bool" where
  "Node16_layout n \<longleftrightarrow>
     length (Node16.prefix n) = MAX_PREFIX_LENGTH \<and> length (Node16.keys n) = 16 \<and>
     length (Node16.children n) = 16"

definition Node48_layout :: "Node48 \<Rightarrow> bool" where
  "Node48_layout n \<longleftrightarrow>
     length (Node48.prefix n) = MAX_PREFIX_LENGTH \<and> length (Node48.keys n) = 256 \<and>
     length (Node48.children n) = 48"

definition Node256_layout :: "Node256 \<Rightarrow> bool" where
  "Node256_layout n \<longleftrightarrow>
     length (Node256.prefix n) = MAX_PREFIX_LENGTH \<and> length (Node256.children n) = 256"

section \<open>Memory\<close>

text \<open>
  What an address holds. A \<^verbatim>\<open>Node *\<close> is cast to the struct its tag names; the cast is
  only meaningful when the object at the address has that struct's layout.
\<close>

datatype obj =
  Obj_Node4 Node4
| Obj_Node16 Node16
| Obj_Node48 Node48
| Obj_Node256 Node256
| Obj_Leaf LeafNode
| Obj_ART ART

text \<open>
  Every node struct starts with its \<^verbatim>\<open>Node\<close> header, which is what \<^verbatim>\<open>node->type\<close>
  reads through a \<^verbatim>\<open>Node *\<close>.
\<close>

fun header :: "obj \<Rightarrow> Node option" where
  "header (Obj_Node4 n) = Some (Node4.node n)"
| "header (Obj_Node16 n) = Some (Node16.node n)"
| "header (Obj_Node48 n) = Some (Node48.node n)"
| "header (Obj_Node256 n) = Some (Node256.node n)"
| "header (Obj_Leaf n) = Some (LeafNode.node n)"
| "header (Obj_ART t) = None"

text \<open>
  The allocator: \<open>room\<close> is the number of requests it can still serve; after that
  \<^verbatim>\<open>malloc\<close> and \<^verbatim>\<open>calloc\<close> return \<^verbatim>\<open>NULL\<close>.
\<close>

record memory =
  cells :: "nat \<rightharpoonup> obj"
  brk :: nat
  room :: nat

definition alloc :: "obj \<Rightarrow> memory \<Rightarrow> ptr \<times> memory" where
  "alloc x m =
     (if room m = 0 then (NULL, m)
      else (Addr (brk m),
            m\<lparr>cells := (cells m)(brk m \<mapsto> x), brk := brk m + 1, room := room m - 1\<rparr>))"

definition store :: "nat \<Rightarrow> obj \<Rightarrow> memory \<Rightarrow> memory" where
  "store a x m = m\<lparr>cells := (cells m)(a \<mapsto> x)\<rparr>"

text \<open>What the code does with a program state that C gives no meaning to.\<close>

datatype fault =
  NullDeref
| InvalidPointer
| BadCast
| OutOfBounds
| UndefinedShift
| SignedOverflow

text \<open>\<^verbatim>\<open>a[i]\<close> on an array: outside the array the access is a fault.\<close>

definition index :: "'a list \<Rightarrow> int \<Rightarrow> fault + 'a" where
  "index xs i = (if 0 \<le> i \<and> i < int (length xs) then Inr (xs ! nat i) else Inl OutOfBounds)"

section \<open>Creation\<close>

text \<open>\<^verbatim>\<open>calloc(1, sizeof(Node4))\<close>: every byte of the block is zero.\<close>

definition calloc_Node4 :: Node4 where
  "calloc_Node4 =
     \<lparr>Node4.node = \<lparr>type = 0\<rparr>, Node4.prefix = replicate MAX_PREFIX_LENGTH 0,
      Node4.prefixLen = 0, Node4.keys = replicate 4 0, Node4.children = replicate 4 NULL,
      Node4.count = 0\<rparr>"

text \<open>\<^verbatim>\<open>for (int i = 0; i < 4; i++) root->keys[i] = EMPTY_KEY;\<close>\<close>

function createRootNode_loop :: "Node4 \<Rightarrow> int \<Rightarrow> Node4" where
  "createRootNode_loop root4 i =
     (if i < 4
      then createRootNode_loop (root4\<lparr>Node4.keys := (Node4.keys root4)[nat i := EMPTY_KEY]\<rparr>) (i + 1)
      else root4)"
  by pat_completeness auto
termination
  by (relation "measure (\<lambda>(root4, i). nat (4 - i))") auto

definition createRootNode :: "memory \<Rightarrow> ptr \<times> memory" where
  "createRootNode m =
     (case alloc (Obj_Node4 calloc_Node4) m of
        (NULL, m') \<Rightarrow> (NULL, m')
      | (Addr r, m') \<Rightarrow>
          (let root4 = calloc_Node4\<lparr>Node4.node := \<lparr>type = NODE4\<rparr>\<rparr>;
               root4 = root4\<lparr>Node4.prefixLen := 0\<rparr>;
               root4 = createRootNode_loop root4 0
           in (Addr r, store r (Obj_Node4 root4) m')))"

text \<open>
  \<^verbatim>\<open>malloc(sizeof(ART))\<close> hands out a block of unspecified content; both fields of the
  \<^verbatim>\<open>ART\<close> are assigned before the function returns, and the result of
  \<^verbatim>\<open>createRootNode()\<close> is stored without being tested.
\<close>

definition initializeAdaptiveRadixTree :: "ART \<Rightarrow> memory \<Rightarrow> ptr \<times> memory" where
  "initializeAdaptiveRadixTree junk m =
     (case alloc (Obj_ART junk) m of
        (NULL, m') \<Rightarrow> (NULL, m')
      | (Addr t, m') \<Rightarrow>
          (case createRootNode m' of
             (r, m'') \<Rightarrow>
               (let tree = junk\<lparr>root := r\<rparr>;
                    tree = tree\<lparr>size' := 0\<rparr>
                in (Addr t, store t (Obj_ART tree) m''))))"

section \<open>Child lookup\<close>

subsection \<open>Node16, vectorized\<close>

text \<open>
  \<^verbatim>\<open>_mm_movemask_epi8\<close>: bit \<open>i\<close> of the result is the top bit of lane \<open>i\<close>; after
  \<^verbatim>\<open>_mm_cmpeq_epi8\<close> a lane is all ones where the two bytes are equal and zero elsewhere.
\<close>

fun movemask :: "bool list \<Rightarrow> 32 word" where
  "movemask [] = 0"
| "movemask (b # bs) = (if b then 1 else 0) OR push_bit 1 (movemask bs)"

text \<open>\<^verbatim>\<open>__builtin_ctz\<close> on a non-zero argument: the index of the lowest set bit.\<close>

fun ctz_from :: "32 word \<Rightarrow> nat \<Rightarrow> nat \<Rightarrow> nat" where
  "ctz_from w 0 k = k"
| "ctz_from w (Suc n) k = (if bit w k then k else ctz_from w n (Suc k))"

definition ctz :: "32 word \<Rightarrow> nat" where
  "ctz w = ctz_from w 32 0"

definition findChildSSE :: "Node16 \<Rightarrow> cchar \<Rightarrow> fault + ptr" where
  "findChildSSE nd byte =
     (if length (Node16.keys nd) < 16 then Inl OutOfBounds
      else
        let cmp = map (\<lambda>k. k = byte) (take 16 (Node16.keys nd)) in
        if Node16.count nd - 1 < INT_MIN then Inl SignedOverflow
        else if Node16.count nd - 1 < 0 \<or> 31 \<le> Node16.count nd - 1 then Inl UndefinedShift
        else
          let mask = push_bit (nat (Node16.count nd - 1)) (1 :: 32 word);
              bitfield = movemask cmp AND mask
          in if bitfield \<noteq> 0
             then index (Node16.children nd) (int (ctz bitfield))
             else Inr NULL)"

subsection \<open>Node16, portable\<close>

text \<open>
  The \<^verbatim>\<open>while (low <= high)\<close> loop. \<open>high - low\<close> is not negative inside the loop, so
  C's truncating division and \<open>div\<close> agree. The two bytes are compared as \<^verbatim>\<open>char\<close>.
\<close>

function findChildBinary_loop :: "target \<Rightarrow> Node16 \<Rightarrow> cchar \<Rightarrow> int \<Rightarrow> int \<Rightarrow> fault + ptr" where
  "findChildBinary_loop tgt nd byte low high =
     (if low \<le> high
      then
        (let mid = low + (high - low) div 2 in
         case index (Node16.keys nd) mid of
           Inl e \<Rightarrow> Inl e
         | Inr midByte \<Rightarrow>
             if char_val tgt midByte < char_val tgt byte
             then findChildBinary_loop tgt nd byte (mid + 1) high
             else if char_val tgt midByte > char_val tgt byte
             then findChildBinary_loop tgt nd byte low (mid - 1)
             else index (Node16.children nd) mid)
      else Inr NULL)"
  by pat_completeness auto
termination
  by (relation "measure (\<lambda>(tgt, nd, byte, low, high). nat (high - low + 1))") auto

definition findChildBinary :: "target \<Rightarrow> Node16 \<Rightarrow> cchar \<Rightarrow> fault + ptr" where
  "findChildBinary tgt nd byte =
     (if Node16.count nd - 1 < INT_MIN then Inl SignedOverflow
      else findChildBinary_loop tgt nd byte 0 (Node16.count nd - 1))"

subsection \<open>All node classes\<close>

text \<open>\<^verbatim>\<open>for (int i = 0; i < node4->count; i++)\<close> of the Node4 branch.\<close>

function findChild_loop4 :: "Node4 \<Rightarrow> cchar \<Rightarrow> int \<Rightarrow> fault + ptr" where
  "findChild_loop4 node4 byte i =
     (if i < Node4.count node4
      then
        (case index (Node4.keys node4) i of
           Inl e \<Rightarrow> Inl e
         | Inr k \<Rightarrow>
             if k = byte then index (Node4.children node4) i
             else findChild_loop4 node4 byte (i + 1))
      else Inr NULL)"
  by pat_completeness auto
termination
  by (relation "measure (\<lambda>(node4, byte, i). nat (Node4.count node4 - i))") auto

definition findChild :: "target \<Rightarrow> memory \<Rightarrow> ptr \<Rightarrow> cchar \<Rightarrow> fault + ptr" where
  "findChild tgt m nd byte =
     (case nd of
        NULL \<Rightarrow> Inl NullDeref
      | Addr a \<Rightarrow>
          (case cells m a of
             None \<Rightarrow> Inl InvalidPointer
           | Some x \<Rightarrow>
               (case header x of
                  None \<Rightarrow> Inl BadCast
                | Some h \<Rightarrow>
                    if type h = NODE4 then
                      (case x of
                         Obj_Node4 node4 \<Rightarrow> findChild_loop4 node4 byte 0
                       | _ \<Rightarrow> Inl BadCast)
                    else if type h = NODE16 then
                      (case x of
                         Obj_Node16 node16 \<Rightarrow>
                           if sse2 tgt then findChildSSE node16 byte
                           else findChildBinary tgt node16 byte
                       | _ \<Rightarrow> Inl BadCast)
                    else if type h = NODE48 then
                      (case x of
                         Obj_Node48 node48 \<Rightarrow>
                           (case index (Node48.keys node48) (char_val tgt byte) of
                              Inl e \<Rightarrow> Inl e
                            | Inr childIndex \<Rightarrow>
                                if childIndex \<noteq> EMPTY_KEY
                                then index (Node48.children node48) (uint childIndex)
                                else Inr NULL)
                       | _ \<Rightarrow> Inl BadCast)
                    else if type h = NODE256 then
                      (case x of
                         Obj_Node256 node256 \<Rightarrow>
                           index (Node256.children node256) (char_val tgt byte)
                       | _ \<Rightarrow> Inl BadCast)
                    else Inr NULL)))"

section \<open>Reference states\<close>

text \<open>The node \<^verbatim>\<open>createRootNode\<close> leaves at the address it returns.\<close>

definition empty_Node4 :: Node4 where
  "empty_Node4 =
     \<lparr>Node4.node = \<lparr>type = NODE4\<rparr>, Node4.prefix = replicate MAX_PREFIX_LENGTH 0,
      Node4.prefixLen = 0, Node4.keys = [EMPTY_KEY, EMPTY_KEY, EMPTY_KEY, EMPTY_KEY],
      Node4.children = [NULL, NULL, NULL, NULL], Node4.count = 0\<rparr>"

text \<open>
  Three targets: x86-64 (SSE2, signed \<^verbatim>\<open>char\<close>), 32-bit x86 built without SSE2 (signed
  \<^verbatim>\<open>char\<close>, portable lookup) and AArch64 Linux (no SSE2, unsigned \<^verbatim>\<open>char\<close>).
\<close>

definition x86_64 :: target where
  "x86_64 = \<lparr>sse2 = True, char_signed = True\<rparr>"

definition i386_nosse :: target where
  "i386_nosse = \<lparr>sse2 = False, char_signed = True\<rparr>"

definition aarch64 :: target where
  "aarch64 = \<lparr>sse2 = False, char_signed = False\<rparr>"

text \<open>A memory holding one object, at address 0, and an allocator with nothing left.\<close>

definition single :: "obj \<Rightarrow> memory" where
  "single x = \<lparr>cells = [0 \<mapsto> x], brk = 1, room = 0\<rparr>"

text \<open>An empty memory whose allocator serves \<open>k\<close> requests.\<close>

definition fresh :: "nat \<Rightarrow> memory" where
  "fresh k = \<lparr>cells = Map.empty, brk = 0, room = k\<rparr>"

text \<open>A Node4 with two children, under the bytes 7 and 9.\<close>

definition two_of_four :: Node4 where
  "two_of_four =
     \<lparr>Node4.node = \<lparr>type = NODE4\<rparr>, Node4.prefix = replicate MAX_PREFIX_LENGTH 0,
      Node4.prefixLen = 0, Node4.keys = [7, 9, EMPTY_KEY, EMPTY_KEY],
      Node4.children = [Addr 20, Addr 21, NULL, NULL], Node4.count = 2\<rparr>"

text \<open>A leaf.\<close>

definition some_leaf :: LeafNode where
  "some_leaf = \<lparr>LeafNode.node = \<lparr>type = LEAF\<rparr>, key = Addr 30, value = Addr 31\<rparr>"

text \<open>
  Node16 examples. The occupied slots are the first \<open>count\<close>; the others hold whatever the
  (absent) inserter left there, here the sentinel and null.
\<close>

definition Node16_of :: "cchar list \<Rightarrow> ptr list \<Rightarrow> Node16" where
  "Node16_of ks cs =
     \<lparr>Node16.node = \<lparr>type = NODE16\<rparr>, Node16.prefix = replicate MAX_PREFIX_LENGTH 0,
      Node16.prefixLen = 0, Node16.keys = ks @ replicate (16 - length ks) EMPTY_KEY,
      Node16.children = cs @ replicate (16 - length cs) NULL,
      Node16.count = int (length ks)\<rparr>"

definition low_pair :: Node16 where
  "low_pair = Node16_of [1, 2] [Addr 10, Addr 11]"

definition no_child :: Node16 where
  "no_child = Node16_of [] []"

definition zero_first :: Node16 where
  "zero_first = Node16_of [0, 5] [Addr 10, Addr 11]"

text \<open>The bytes 1 and 200 in ascending order of their values 0..255.\<close>

definition upper_half_pair :: Node16 where
  "upper_half_pair = Node16_of [1, 200] [Addr 10, Addr 11]"

text \<open>The same two bytes in ascending order of a signed \<^verbatim>\<open>char\<close>: 200 is \<open>-56\<close>.\<close>

definition signed_order_pair :: Node16 where
  "signed_order_pair = Node16_of [200, 1] [Addr 11, Addr 10]"

text \<open>A Node48 and a Node256 with one child, under the byte 200.\<close>

definition table48 :: Node48 where
  "table48 =
     \<lparr>Node48.node = \<lparr>type = NODE48\<rparr>, Node48.prefix = replicate MAX_PREFIX_LENGTH 0,
      Node48.prefixLen = 0, Node48.keys = (replicate 256 EMPTY_KEY)[200 := 3],
      Node48.children = (replicate 48 NULL)[3 := Addr 9]\<rparr>"

definition direct256 :: Node256 where
  "direct256 =
     \<lparr>Node256.node = \<lparr>type = NODE256\<rparr>, Node256.prefix = replicate MAX_PREFIX_LENGTH 0,
      Node256.prefixLen = 0, Node256.children = (replicate 256 NULL)[200 := Addr 7]\<rparr>"







text \<open>A Node4 whose only child is stored under the byte 255.\<close>

definition stored_255 :: Node4 where
  "stored_255 =
     \<lparr>Node4.node = \<lparr>type = NODE4\<rparr>, Node4.prefix = replicate MAX_PREFIX_LENGTH 0,
      Node4.prefixLen = 0, Node4.keys = [255, EMPTY_KEY, EMPTY_KEY, EMPTY_KEY],
      Node4.children = [Addr 20, NULL, NULL, NULL], Node4.count = 1\<rparr>"

text \<open>
  A well-formed Node48: every entry of the byte table is the sentinel or the index of a
  slot that holds a child.
\<close>

definition Node48_wellformed :: "Node48 \<Rightarrow> bool" where
  "Node48_wellformed n \<longleftrightarrow>
     type (Node48.node n) = NODE48 \<and> Node48_layout n \<and>
     (\<forall>k \<in> set (Node48.keys n).
        k = EMPTY_KEY \<or> (unat k < 48 \<and> Node48.children n ! unat k \<noteq> NULL))"

section \<open>Supporting lemmas\<close>

lemmas NodeType_defs = NODE4_def NODE16_def NODE48_def NODE256_def LEAF_def

lemma index_Inr: "0 \<le> i \<Longrightarrow> i < int (length xs) \<Longrightarrow> index xs i = Inr (xs ! nat i)"
  by (simp add: index_def)

lemma char_val_inject: "char_val tgt x = char_val tgt y \<longleftrightarrow> x = y"
  by (cases "char_signed tgt")
    (auto simp: char_val_def dest: word_uint_eqI signed_word_eqI [where 'a = int])

subsection \<open>Creation\<close>

lemma createRootNode_cases:
  "createRootNode m =
     (if room m = 0 then (NULL, m)
      else (Addr (brk m),
            m\<lparr>cells := (cells m)(brk m \<mapsto> Obj_Node4 empty_Node4), brk := brk m + 1,
              room := room m - 1\<rparr>))"
  by (simp add: createRootNode_def alloc_def store_def Let_def calloc_Node4_def
      empty_Node4_def numeral_eq_Suc)

lemma findChild_empty_Node4:
  "cells m r = Some (Obj_Node4 empty_Node4) \<Longrightarrow> findChild tgt m (Addr r) b = Inr NULL"
  by (simp add: findChild_def empty_Node4_def)

lemma ART_overwrite: "(junk :: ART)\<lparr>root := r, size' := s\<rparr> = \<lparr>root = r, size' = s\<rparr>"
  by (cases junk) simp

text \<open>
  The three outcomes of \<^verbatim>\<open>initializeAdaptiveRadixTree\<close>: no tree, a tree without a
  root, a tree with the empty root.
\<close>

lemma initializeAdaptiveRadixTree_cases:
  "initializeAdaptiveRadixTree junk m =
     (if room m = 0 then (NULL, m)
      else if room m = 1 then
        (Addr (brk m),
         m\<lparr>cells := (cells m)(brk m \<mapsto> Obj_ART \<lparr>root = NULL, size' = 0\<rparr>),
           brk := brk m + 1, room := 0\<rparr>)
      else
        (Addr (brk m),
         m\<lparr>cells := (cells m)(brk m \<mapsto> Obj_ART \<lparr>root = Addr (brk m + 1), size' = 0\<rparr>,
                                 brk m + 1 \<mapsto> Obj_Node4 empty_Node4),
           brk := brk m + 2, room := room m - 2\<rparr>))"
  by (auto simp: initializeAdaptiveRadixTree_def createRootNode_cases alloc_def store_def
      Let_def fun_upd_twist numeral_2_eq_2 ART_overwrite)

subsection \<open>The Node4 scan\<close>

lemma loop4_absent:
  assumes "Node4.count n \<le> int (length (Node4.keys n))" and "0 \<le> i"
    and "\<forall>j. i \<le> j \<and> j < Node4.count n \<longrightarrow> Node4.keys n ! nat j \<noteq> b"
  shows "findChild_loop4 n b i = Inr NULL"
  using assms
proof (induction n b i rule: findChild_loop4.induct)
  case (1 node4 byte i)
  show ?case
  proof (cases "i < Node4.count node4")
    case True
    with "1.prems" have k: "index (Node4.keys node4) i = Inr (Node4.keys node4 ! nat i)"
      and ne: "Node4.keys node4 ! nat i \<noteq> byte"
      by (simp_all add: index_Inr)
    have "findChild_loop4 node4 byte (i + 1) = Inr NULL"
      using True k ne "1.prems" by (intro "1.IH") auto
    with True k ne show ?thesis by simp
  next
    case False
    then show ?thesis by simp
  qed
qed

lemma loop4_present:
  assumes "Node4.count n \<le> int (length (Node4.keys n))"
    and "Node4.count n \<le> int (length (Node4.children n))"
    and "0 \<le> i" and "i \<le> k" and "k < Node4.count n"
    and "Node4.keys n ! nat k = b"
    and "\<forall>j. i \<le> j \<and> j < k \<longrightarrow> Node4.keys n ! nat j \<noteq> b"
  shows "findChild_loop4 n b i = Inr (Node4.children n ! nat k)"
  using assms
proof (induction n b i rule: findChild_loop4.induct)
  case (1 node4 byte i)
  from "1.prems" have lt: "i < Node4.count node4" by simp
  with "1.prems" have key: "index (Node4.keys node4) i = Inr (Node4.keys node4 ! nat i)"
    by (simp add: index_Inr)
  show ?case
  proof (cases "i = k")
    case True
    with "1.prems" key lt show ?thesis by (simp add: index_Inr)
  next
    case False
    with "1.prems" have ne: "Node4.keys node4 ! nat i \<noteq> byte" and "i + 1 \<le> k"
      by auto
    then have "findChild_loop4 node4 byte (i + 1) = Inr (Node4.children node4 ! nat k)"
      using lt key "1.prems" by (intro "1.IH") auto
    with lt key ne show ?thesis by simp
  qed
qed

lemma loop4_cong:
  assumes "Node4.count n' = Node4.count n" and "0 \<le> i"
    and "\<forall>j. 0 \<le> j \<and> j < Node4.count n \<longrightarrow>
           index (Node4.keys n') j = index (Node4.keys n) j \<and>
           index (Node4.children n') j = index (Node4.children n) j"
  shows "findChild_loop4 n' b i = findChild_loop4 n b i"
  using assms
proof (induction n b i rule: findChild_loop4.induct)
  case (1 node4 byte i)
  show ?case
  proof (cases "i < Node4.count node4")
    case True
    with "1.prems" have same: "index (Node4.keys n') i = index (Node4.keys node4) i"
      "index (Node4.children n') i = index (Node4.children node4) i"
      by simp_all
    show ?thesis
    proof (cases "index (Node4.keys node4) i")
      case (Inl e)
      with True same "1.prems"(1) show ?thesis
        by (simp add: findChild_loop4.simps [of n' byte i] findChild_loop4.simps [of node4 byte i])
    next
      case (Inr k)
      show ?thesis
      proof (cases "k = byte")
        case True
        with \<open>i < Node4.count node4\<close> Inr same "1.prems"(1) show ?thesis
          by (simp add: findChild_loop4.simps [of n' byte i] findChild_loop4.simps [of node4 byte i])
      next
        case False
        have "findChild_loop4 n' byte (i + 1) = findChild_loop4 node4 byte (i + 1)"
          using \<open>i < Node4.count node4\<close> Inr False "1.prems" by (intro "1.IH") auto
        with \<open>i < Node4.count node4\<close> Inr False same "1.prems"(1) show ?thesis
          by (simp add: findChild_loop4.simps [of n' byte i] findChild_loop4.simps [of node4 byte i])
      qed
    qed
  next
    case False
    with "1.prems"(1) show ?thesis
      by (simp add: findChild_loop4.simps [of n' byte i] findChild_loop4.simps [of node4 byte i])
  qed
qed

subsection \<open>The binary search\<close>

lemma binary_loop_sorted:
  assumes "\<forall>i j. 0 \<le> i \<and> i \<le> j \<and> j < c \<longrightarrow>
             char_val tgt (Node16.keys n ! nat i) \<le> char_val tgt (Node16.keys n ! nat j)"
    and "c \<le> int (length (Node16.keys n))" and "c \<le> int (length (Node16.children n))"
    and "0 \<le> low" and "high < c"
  shows "(\<exists>mid. low \<le> mid \<and> mid \<le> high \<and> Node16.keys n ! nat mid = b \<and>
            findChildBinary_loop tgt n b low high = Inr (Node16.children n ! nat mid)) \<or>
         ((\<forall>j. low \<le> j \<and> j \<le> high \<longrightarrow> Node16.keys n ! nat j \<noteq> b) \<and>
            findChildBinary_loop tgt n b low high = Inr NULL)"
  using assms
proof (induction tgt n b low high rule: findChildBinary_loop.induct)
  case (1 tgt nd byte low high)
  show ?case
  proof (cases "low \<le> high")
    case False
    then show ?thesis by auto
  next
    case True
    define mid where "mid = low + (high - low) div 2"
    have mid: "low \<le> mid" "mid \<le> high" using True by (auto simp: mid_def)
    with "1.prems" have inb: "0 \<le> mid" "mid < int (length (Node16.keys nd))"
      "mid < int (length (Node16.children nd))" by auto
    then have key: "index (Node16.keys nd) mid = Inr (Node16.keys nd ! nat mid)"
      and child: "index (Node16.children nd) mid = Inr (Node16.children nd ! nat mid)"
      by (simp_all add: index_Inr)
    let ?k = "Node16.keys nd ! nat mid"
    consider (less) "char_val tgt ?k < char_val tgt byte"
      | (greater) "char_val tgt ?k > char_val tgt byte"
      | (equal) "?k = byte"
      using char_val_inject [of tgt ?k byte] by fastforce
    then show ?thesis
    proof cases
      case less
      have step: "findChildBinary_loop tgt nd byte low high =
                  findChildBinary_loop tgt nd byte (mid + 1) high"
        using True key less by (simp add: mid_def [symmetric] Let_def)
      have below: "\<forall>j. low \<le> j \<and> j \<le> mid \<longrightarrow> Node16.keys nd ! nat j \<noteq> byte"
      proof (intro allI impI)
        fix j assume j: "low \<le> j \<and> j \<le> mid"
        with "1.prems" mid have "char_val tgt (Node16.keys nd ! nat j) \<le> char_val tgt ?k"
          by auto
        with less show "Node16.keys nd ! nat j \<noteq> byte" by auto
      qed
      have IH: "(\<exists>m'. mid + 1 \<le> m' \<and> m' \<le> high \<and> Node16.keys nd ! nat m' = byte \<and>
            findChildBinary_loop tgt nd byte (mid + 1) high = Inr (Node16.children nd ! nat m')) \<or>
         ((\<forall>j. mid + 1 \<le> j \<and> j \<le> high \<longrightarrow> Node16.keys nd ! nat j \<noteq> byte) \<and>
            findChildBinary_loop tgt nd byte (mid + 1) high = Inr NULL)"
        using True key less "1.prems" mid
        by (intro "1.IH"(1) [OF True mid_def key less]) auto
      then show ?thesis
      proof
        assume "\<exists>m'. mid + 1 \<le> m' \<and> m' \<le> high \<and> Node16.keys nd ! nat m' = byte \<and>
            findChildBinary_loop tgt nd byte (mid + 1) high = Inr (Node16.children nd ! nat m')"
        then obtain m' where "mid + 1 \<le> m'" "m' \<le> high" "Node16.keys nd ! nat m' = byte"
          "findChildBinary_loop tgt nd byte (mid + 1) high = Inr (Node16.children nd ! nat m')"
          by blast
        with mid step have "low \<le> m' \<and> m' \<le> high \<and> Node16.keys nd ! nat m' = byte \<and>
            findChildBinary_loop tgt nd byte low high = Inr (Node16.children nd ! nat m')"
          by simp
        then show ?thesis by blast
      next
        assume none: "(\<forall>j. mid + 1 \<le> j \<and> j \<le> high \<longrightarrow> Node16.keys nd ! nat j \<noteq> byte) \<and>
            findChildBinary_loop tgt nd byte (mid + 1) high = Inr NULL"
        have "\<forall>j. low \<le> j \<and> j \<le> high \<longrightarrow> Node16.keys nd ! nat j \<noteq> byte"
        proof (intro allI impI)
          fix j assume "low \<le> j \<and> j \<le> high"
          then have "(low \<le> j \<and> j \<le> mid) \<or> (mid + 1 \<le> j \<and> j \<le> high)" by arith
          with below none show "Node16.keys nd ! nat j \<noteq> byte" by blast
        qed
        with none step show ?thesis by simp
      qed
    next
      case greater
      then have nless: "\<not> char_val tgt ?k < char_val tgt byte" by simp
      have step: "findChildBinary_loop tgt nd byte low high =
                  findChildBinary_loop tgt nd byte low (mid - 1)"
        using True key greater by (simp add: mid_def [symmetric] Let_def)
      have above: "\<forall>j. mid \<le> j \<and> j \<le> high \<longrightarrow> Node16.keys nd ! nat j \<noteq> byte"
      proof (intro allI impI)
        fix j assume j: "mid \<le> j \<and> j \<le> high"
        with "1.prems" mid have "char_val tgt ?k \<le> char_val tgt (Node16.keys nd ! nat j)"
          by auto
        with greater show "Node16.keys nd ! nat j \<noteq> byte" by auto
      qed
      have IH: "(\<exists>m'. low \<le> m' \<and> m' \<le> mid - 1 \<and> Node16.keys nd ! nat m' = byte \<and>
            findChildBinary_loop tgt nd byte low (mid - 1) = Inr (Node16.children nd ! nat m')) \<or>
         ((\<forall>j. low \<le> j \<and> j \<le> mid - 1 \<longrightarrow> Node16.keys nd ! nat j \<noteq> byte) \<and>
            findChildBinary_loop tgt nd byte low (mid - 1) = Inr NULL)"
        using True key greater "1.prems" mid
        by (intro "1.IH"(2) [OF True mid_def key nless greater]) auto
      then show ?thesis
      proof
        assume "\<exists>m'. low \<le> m' \<and> m' \<le> mid - 1 \<and> Node16.keys nd ! nat m' = byte \<and>
            findChildBinary_loop tgt nd byte low (mid - 1) = Inr (Node16.children nd ! nat m')"
        then obtain m' where "low \<le> m'" "m' \<le> mid - 1" "Node16.keys nd ! nat m' = byte"
          "findChildBinary_loop tgt nd byte low (mid - 1) = Inr (Node16.children nd ! nat m')"
          by blast
        with mid step have "low \<le> m' \<and> m' \<le> high \<and> Node16.keys nd ! nat m' = byte \<and>
            findChildBinary_loop tgt nd byte low high = Inr (Node16.children nd ! nat m')"
          by simp
        then show ?thesis by blast
      next
        assume none: "(\<forall>j. low \<le> j \<and> j \<le> mid - 1 \<longrightarrow> Node16.keys nd ! nat j \<noteq> byte) \<and>
            findChildBinary_loop tgt nd byte low (mid - 1) = Inr NULL"
        have "\<forall>j. low \<le> j \<and> j \<le> high \<longrightarrow> Node16.keys nd ! nat j \<noteq> byte"
        proof (intro allI impI)
          fix j assume "low \<le> j \<and> j \<le> high"
          then have "(low \<le> j \<and> j \<le> mid - 1) \<or> (mid \<le> j \<and> j \<le> high)" by arith
          with above none show "Node16.keys nd ! nat j \<noteq> byte" by blast
        qed
        with none step show ?thesis by simp
      qed
    next
      case equal
      then have "findChildBinary_loop tgt nd byte low high = Inr (Node16.children nd ! nat mid)"
        using True key child by (simp add: mid_def [symmetric] Let_def)
      with mid equal show ?thesis by blast
    qed
  qed
qed

subsection \<open>The vectorized comparison\<close>

lemma bit_movemask_Cons:
  "bit (movemask (b # bs)) i \<longleftrightarrow>
     (b \<and> i = 0) \<or> (1 \<le> i \<and> i < 32 \<and> bit (movemask bs) (i - 1))"
  by (cases b) (auto simp: bit_or_iff bit_push_bit_iff bit_1_iff possible_bit_word
      simp del: push_bit_Suc push_bit_of_Suc_0 push_bit_eq_mult)

lemma bit_movemask:
  "length bs \<le> 32 \<Longrightarrow> bit (movemask bs) i \<longleftrightarrow> i < length bs \<and> bs ! i"
proof (induction bs arbitrary: i)
  case Nil
  then show ?case by simp
next
  case (Cons b bs)
  then have IH: "bit (movemask bs) (i - 1) \<longleftrightarrow> i - 1 < length bs \<and> bs ! (i - 1)"
    by simp
  from Cons.prems show ?case
    unfolding bit_movemask_Cons IH by (cases i) auto
qed

lemma bit_single: "bit (push_bit k (1 :: 32 word)) i \<longleftrightarrow> i = k \<and> k < 32"
  by (auto simp: bit_push_bit_iff bit_1_iff possible_bit_word simp del: push_bit_of_1)

lemma ctz_from_first:
  "bit w k \<Longrightarrow> \<forall>i<k. \<not> bit w i \<Longrightarrow> j \<le> k \<Longrightarrow> k < j + n \<Longrightarrow> ctz_from w n j = k"
proof (induction n arbitrary: j)
  case 0
  then show ?case by simp
next
  case (Suc n)
  show ?case
  proof (cases "j = k")
    case True
    with Suc.prems show ?thesis by simp
  next
    case False
    with Suc.prems have "j < k" by simp
    with Suc.prems have "\<not> bit w j" by simp
    moreover have "ctz_from w n (Suc j) = k"
      using Suc.prems \<open>j < k\<close> by (intro Suc.IH) auto
    ultimately show ?thesis by simp
  qed
qed

lemma ctz_single_bit: "k < 32 \<Longrightarrow> ctz (push_bit k (1 :: 32 word)) = k"
  unfolding ctz_def by (rule ctz_from_first) (simp_all only: bit_single, simp_all)

lemma movemask_and_single_bit:
  assumes "length bs \<le> 32" and "k < 32"
  shows "movemask bs AND push_bit k 1 = (if k < length bs \<and> bs ! k then push_bit k 1 else 0)"
proof (rule bit_eqI)
  fix i
  show "bit (movemask bs AND push_bit k 1) i \<longleftrightarrow>
        bit (if k < length bs \<and> bs ! k then push_bit k 1 else 0 :: 32 word) i"
    using assms by (auto simp: bit_and_iff bit_movemask bit_single simp del: push_bit_of_1)
qed

lemma push_bit_1_nonzero: "k < 32 \<Longrightarrow> push_bit k (1 :: 32 word) \<noteq> 0"
proof
  assume "k < 32" and "push_bit k (1 :: 32 word) = 0"
  then have "bit (0 :: 32 word) k \<longleftrightarrow> bit (push_bit k (1 :: 32 word)) k" by (simp only:)
  with \<open>k < 32\<close> show False by (simp only: bit_single) simp
qed

text \<open>
  What \<^verbatim>\<open>findChildSSE\<close> computes: only the last occupied slot, \<open>count - 1\<close>, is looked
  at; with count 0 the shift is undefined.
\<close>

lemma findChildSSE_last_slot_only:
  assumes "Node16_layout n" and "1 \<le> Node16.count n" and "Node16.count n \<le> 16"
  shows "findChildSSE n b =
           Inr (if Node16.keys n ! nat (Node16.count n - 1) = b
                then Node16.children n ! nat (Node16.count n - 1) else NULL)"
proof -
  let ?k = "nat (Node16.count n - 1)"
  let ?cmp = "map (\<lambda>k. k = b) (take 16 (Node16.keys n))"
  from assms have len: "length (Node16.keys n) = 16" "length (Node16.children n) = 16"
    by (simp_all add: Node16_layout_def)
  from assms have k: "?k < 16" by auto
  have "movemask ?cmp AND push_bit ?k 1 =
        (if ?k < length ?cmp \<and> ?cmp ! ?k then push_bit ?k 1 else 0)"
    using len k by (intro movemask_and_single_bit) simp_all
  also have "\<dots> = (if Node16.keys n ! ?k = b then push_bit ?k 1 else 0)"
    using len k by (simp del: push_bit_of_1)
  finally have bitfield: "movemask ?cmp AND push_bit ?k 1 =
        (if Node16.keys n ! ?k = b then push_bit ?k 1 else 0)" .
  have child: "index (Node16.children n) (int ?k) = Inr (Node16.children n ! ?k)"
    using assms(2,3) len by (simp add: index_def)
  have nz: "push_bit ?k (1 :: 32 word) \<noteq> 0" and tz: "ctz (push_bit ?k (1 :: 32 word)) = ?k"
    using k by (simp_all add: push_bit_1_nonzero ctz_single_bit del: push_bit_of_1)
  have guards: "\<not> length (Node16.keys n) < 16" "\<not> Node16.count n - 1 < INT_MIN"
    "\<not> (Node16.count n - 1 < 0 \<or> 31 \<le> Node16.count n - 1)"
    using assms(2,3) len by (simp_all add: INT_MIN_def)
  show ?thesis
    unfolding findChildSSE_def Let_def bitfield
    using guards nz tz child by (simp del: push_bit_of_1)
qed

lemma findChildSSE_count_0:
  "Node16_layout n \<Longrightarrow> Node16.count n = 0 \<Longrightarrow> findChildSSE n b = Inl UndefinedShift"
  by (simp add: findChildSSE_def Node16_layout_def INT_MIN_def)

subsection \<open>Indexing by the byte\<close>

lemma char_val_unsigned_range: "\<not> char_signed tgt \<Longrightarrow> 0 \<le> char_val tgt b \<and> char_val tgt b < 256"
  using uint_bounded [of b] by (simp add: char_val_def)

lemma char_val_signed_upper_half:
  assumes "char_signed tgt" and "128 \<le> uint b"
  shows "char_val tgt b < 0"
proof -
  have "uint b < 256"
    using uint_bounded [of b] by simp
  with assms(2) have "uint b div 2 ^ 7 = 1"
    by simp
  then have "bit (uint b) 7"
    by (simp only: bit_iff_odd) simp
  then have "signed_take_bit 7 (uint b) < 0"
    by (simp only: signed_take_bit_negative_iff)
  moreover have "sint b = signed_take_bit 7 (uint b)"
    by (simp add: sint_uint)
  ultimately show ?thesis
    using assms(1) by (simp add: char_val_def)
qed

lemma char_val_0: "char_val tgt 0 = 0"
  by (simp add: char_val_def)

text \<open>Where the byte indexes inside the array, the two table lookups do what they say.\<close>

lemma findChild_Node256_in_bounds:
  assumes "cells m a = Some (Obj_Node256 n)" and "type (Node256.node n) = NODE256"
    and "Node256_layout n" and "0 \<le> char_val tgt b"
  shows "findChild tgt m (Addr a) b = Inr (Node256.children n ! nat (char_val tgt b))"
proof -
  have "char_val tgt b < 256"
    using uint_bounded [of b] sint_lt [of b] by (simp add: char_val_def)
  with assms show ?thesis
    by (simp add: findChild_def NodeType_defs Node256_layout_def index_def)
qed

lemma findChild_Node48_in_bounds:
  assumes "cells m a = Some (Obj_Node48 n)" and "Node48_wellformed n"
    and "0 \<le> char_val tgt b"
  shows "findChild tgt m (Addr a) b =
           Inr (if Node48.keys n ! nat (char_val tgt b) = EMPTY_KEY then NULL
                else Node48.children n ! unat (Node48.keys n ! nat (char_val tgt b)))"
    and "Node48.keys n ! nat (char_val tgt b) \<noteq> EMPTY_KEY \<Longrightarrow>
           unat (Node48.keys n ! nat (char_val tgt b)) < 48 \<and>
           Node48.children n ! unat (Node48.keys n ! nat (char_val tgt b)) \<noteq> NULL"
proof -
  let ?i = "char_val tgt b"
  from assms(2) have len: "length (Node48.keys n) = 256" "length (Node48.children n) = 48"
    and tag: "type (Node48.node n) = NODE48"
    by (simp_all add: Node48_wellformed_def Node48_layout_def)
  have "?i < 256"
    using uint_bounded [of b] sint_lt [of b] by (simp add: char_val_def)
  with assms(3) len have mem: "Node48.keys n ! nat ?i \<in> set (Node48.keys n)"
    and entry: "index (Node48.keys n) ?i = Inr (Node48.keys n ! nat ?i)"
    by (simp_all add: index_def)
  with assms(2) have wf: "Node48.keys n ! nat ?i = EMPTY_KEY \<or>
      (unat (Node48.keys n ! nat ?i) < 48 \<and>
       Node48.children n ! unat (Node48.keys n ! nat ?i) \<noteq> NULL)"
    by (simp add: Node48_wellformed_def)
  then show "Node48.keys n ! nat ?i \<noteq> EMPTY_KEY \<Longrightarrow>
           unat (Node48.keys n ! nat ?i) < 48 \<and>
           Node48.children n ! unat (Node48.keys n ! nat ?i) \<noteq> NULL"
    by blast
  have "index (Node48.children n) (uint (Node48.keys n ! nat ?i)) =
        Inr (Node48.children n ! unat (Node48.keys n ! nat ?i))"
    if "Node48.keys n ! nat ?i \<noteq> EMPTY_KEY"
  proof -
    from that wf have "unat (Node48.keys n ! nat ?i) < 48" by blast
    then have "uint (Node48.keys n ! nat ?i) < 48"
      by (simp only: unat_eq_nat_uint)
    with len show ?thesis by (simp add: index_def)
  qed
  with assms(1) tag entry show "findChild tgt m (Addr a) b =
           Inr (if Node48.keys n ! nat ?i = EMPTY_KEY then NULL
                else Node48.children n ! unat (Node48.keys n ! nat ?i))"
    by (simp add: findChild_def NodeType_defs)
qed

text \<open>Where \<^verbatim>\<open>char\<close> is signed, every byte of the upper half indexes below the array.\<close>

lemma findChild_table_signed_upper_half:
  assumes "char_signed tgt" and "128 \<le> uint b"
  shows "cells m a = Some (Obj_Node48 n48) \<Longrightarrow> type (Node48.node n48) = NODE48 \<Longrightarrow>
           findChild tgt m (Addr a) b = Inl OutOfBounds"
    and "cells m a = Some (Obj_Node256 n256) \<Longrightarrow> type (Node256.node n256) = NODE256 \<Longrightarrow>
           findChild tgt m (Addr a) b = Inl OutOfBounds"
  using char_val_signed_upper_half [OF assms]
  by (simp_all add: findChild_def NodeType_defs index_def)

text \<open>No slot index of a Node48 is the sentinel.\<close>

lemma slot_index_not_EMPTY_KEY: "unat k < 48 \<Longrightarrow> k \<noteq> EMPTY_KEY"
  by (auto simp: EMPTY_KEY_def)

text \<open>Byte 0 indexes entry 0 on every target, so the two table lookups serve it.\<close>

lemma findChild_byte_0_tables:
  "cells m a = Some (Obj_Node256 n256) \<Longrightarrow> type (Node256.node n256) = NODE256 \<Longrightarrow>
     Node256_layout n256 \<Longrightarrow> findChild tgt m (Addr a) 0 = Inr (Node256.children n256 ! 0)"
  "cells m a = Some (Obj_Node48 n48) \<Longrightarrow> Node48_wellformed n48 \<Longrightarrow>
     Node48.keys n48 ! 0 \<noteq> EMPTY_KEY \<Longrightarrow>
     findChild tgt m (Addr a) 0 = Inr (Node48.children n48 ! unat (Node48.keys n48 ! 0))"
  using findChild_Node256_in_bounds [of m a n256 tgt 0]
    findChild_Node48_in_bounds(1) [of m a n48 tgt 0]
  by (simp_all add: char_val_0)

lemma table48_wellformed: "Node48_wellformed table48"
  by code_simp

text \<open>
  \<^verbatim>\<open>findChild\<close> never compares a key slot with the sentinel: in a Node4 it tells the
  stored key byte 255 from an empty slot by the count.
\<close>

lemma findChild_Node4_key_255_by_count:
  "findChild tgt (single (Obj_Node4 stored_255)) (Addr 0) 255 = Inr (Addr 20)"
  "findChild tgt (single (Obj_Node4 empty_Node4)) (Addr 0) 255 = Inr NULL"
  by (simp_all add: single_def empty_Node4_def stored_255_def findChild_def index_def)

section \<open>Claims\<close>

text \<open>
  \<^bold>\<open>C1.\<close> The mask of \<^verbatim>\<open>findChildSSE\<close> is \<^verbatim>\<open>1 << (count - 1)\<close>, one bit, not the
  \<open>count\<close> low bits. On the Node16 with the occupied keys 1, 2 the portable lookup finds
  the child of byte 1 and the vectorized one reports it absent; with count 0 the shift
  count is \<open>-1\<close>, which C leaves undefined, where the portable lookup returns \<^verbatim>\<open>NULL\<close>.
\<close>

theorem findChildSSE_differs_from_findChildBinary:
  "Node16_layout low_pair \<and> Node16.count low_pair = 2 \<and>
   Node16.keys low_pair ! 0 = 1 \<and> Node16.children low_pair ! 0 = Addr 10 \<and>
   findChildBinary x86_64 low_pair 1 = Inr (Addr 10) \<and>
   findChildSSE low_pair 1 = Inr NULL \<and>
   Node16_layout no_child \<and> Node16.count no_child = 0 \<and>
   findChildBinary x86_64 no_child 1 = Inr NULL \<and>
   findChildSSE no_child 1 = Inl UndefinedShift"
  by code_simp

text \<open>
  \<^bold>\<open>C2.\<close> Where \<^verbatim>\<open>char\<close> is signed, the byte 200 reaches \<^verbatim>\<open>findChild\<close> as \<open>-56\<close>, and
  both \<^verbatim>\<open>node48->keys[byte]\<close> and \<^verbatim>\<open>node256->children[byte]\<close> index their 256-entry
  array at \<open>-56\<close>. Where \<^verbatim>\<open>char\<close> is unsigned the same accesses are in bounds.
\<close>

theorem findChild_signed_char_index_out_of_bounds:
  "Node256_layout direct256 \<and> Node48_layout table48 \<and> char_val x86_64 200 = - 56 \<and>
   findChild x86_64 (single (Obj_Node256 direct256)) (Addr 0) 200 = Inl OutOfBounds \<and>
   findChild x86_64 (single (Obj_Node48 table48)) (Addr 0) 200 = Inl OutOfBounds \<and>
   findChild aarch64 (single (Obj_Node256 direct256)) (Addr 0) 200 = Inr (Addr 7) \<and>
   findChild aarch64 (single (Obj_Node48 table48)) (Addr 0) 200 = Inr (Addr 9)"
  by code_simp

text \<open>
  \<^bold>\<open>C3.\<close> When the allocator serves the request for the \<^verbatim>\<open>ART\<close> and fails the next one,
  \<^verbatim>\<open>initializeAdaptiveRadixTree\<close> returns a tree of size 0 whose root is \<^verbatim>\<open>NULL\<close>: the
  result of \<^verbatim>\<open>createRootNode()\<close> is stored unchecked.
\<close>

theorem initializeAdaptiveRadixTree_null_root:
  "initializeAdaptiveRadixTree junk (fresh 1) =
     (Addr 0, single (Obj_ART \<lparr>root = NULL, size' = 0\<rparr>))"
  by (simp add: initializeAdaptiveRadixTree_cases fresh_def single_def)

text \<open>
  \<^bold>\<open>C4.\<close> On a Node4 with count between 0 and 4, \<^verbatim>\<open>findChild\<close> returns the child of the
  first occupied slot (index below count) whose key byte is the query byte, and \<^verbatim>\<open>NULL\<close>
  when no occupied slot holds it. Slots at and beyond count are not consulted: two Node4
  with the same count and the same occupied slots give the same result.
\<close>

theorem findChild_Node4_scan:
  assumes "cells m a = Some (Obj_Node4 n)" and "type (Node4.node n) = NODE4"
    and "Node4_layout n" and "0 \<le> Node4.count n" and "Node4.count n \<le> 4"
  shows "((\<exists>i<nat (Node4.count n). Node4.keys n ! i = b) \<longrightarrow>
            (\<exists>i<nat (Node4.count n). Node4.keys n ! i = b \<and>
               (\<forall>j<i. Node4.keys n ! j \<noteq> b) \<and>
               findChild tgt m (Addr a) b = Inr (Node4.children n ! i))) \<and>
         ((\<forall>i<nat (Node4.count n). Node4.keys n ! i \<noteq> b) \<longrightarrow>
            findChild tgt m (Addr a) b = Inr NULL) \<and>
         (\<forall>m' a' n'. cells m' a' = Some (Obj_Node4 n') \<and> type (Node4.node n') = NODE4 \<and>
            Node4_layout n' \<and> Node4.count n' = Node4.count n \<and>
            take (nat (Node4.count n)) (Node4.keys n') = take (nat (Node4.count n)) (Node4.keys n) \<and>
            take (nat (Node4.count n)) (Node4.children n') =
              take (nat (Node4.count n)) (Node4.children n) \<longrightarrow>
            findChild tgt m' (Addr a') b = findChild tgt m (Addr a) b)"
proof (intro conjI impI allI)
  have len: "Node4.count n \<le> int (length (Node4.keys n))"
    "Node4.count n \<le> int (length (Node4.children n))"
    using assms by (simp_all add: Node4_layout_def)
  have unfold: "findChild tgt m (Addr a) b = findChild_loop4 n b 0"
    using assms by (simp add: findChild_def)
  {
    assume "\<exists>i<nat (Node4.count n). Node4.keys n ! i = b"
    then obtain i where i: "i < nat (Node4.count n)" "Node4.keys n ! i = b"
      "\<forall>j<i. Node4.keys n ! j \<noteq> b"
      using exists_least_iff [of "\<lambda>i. i < nat (Node4.count n) \<and> Node4.keys n ! i = b"]
      by (metis (no_types, lifting) less_trans)
    have "\<forall>j. 0 \<le> j \<and> j < int i \<longrightarrow> Node4.keys n ! nat j \<noteq> b"
    proof (intro allI impI)
      fix j assume "0 \<le> j \<and> j < int i"
      then have "nat j < i" by auto
      with i(3) show "Node4.keys n ! nat j \<noteq> b" by blast
    qed
    with len i have "findChild_loop4 n b 0 = Inr (Node4.children n ! nat (int i))"
      by (intro loop4_present) auto
    with i unfold
    show "\<exists>i<nat (Node4.count n). Node4.keys n ! i = b \<and> (\<forall>j<i. Node4.keys n ! j \<noteq> b) \<and>
             findChild tgt m (Addr a) b = Inr (Node4.children n ! i)"
      by auto
  }
  {
    assume none: "\<forall>i<nat (Node4.count n). Node4.keys n ! i \<noteq> b"
    have "\<forall>j. 0 \<le> j \<and> j < Node4.count n \<longrightarrow> Node4.keys n ! nat j \<noteq> b"
      using none by auto
    with len have "findChild_loop4 n b 0 = Inr NULL"
      by (intro loop4_absent) auto
    with unfold show "findChild tgt m (Addr a) b = Inr NULL" by simp
  }
  {
    fix m' :: memory and a' :: nat and n' :: Node4
    assume other: "cells m' a' = Some (Obj_Node4 n') \<and> type (Node4.node n') = NODE4 \<and>
            Node4_layout n' \<and> Node4.count n' = Node4.count n \<and>
            take (nat (Node4.count n)) (Node4.keys n') = take (nat (Node4.count n)) (Node4.keys n) \<and>
            take (nat (Node4.count n)) (Node4.children n') =
              take (nat (Node4.count n)) (Node4.children n)"
    then have unfold': "findChild tgt m' (Addr a') b = findChild_loop4 n' b 0"
      by (simp add: findChild_def)
    have same: "\<forall>j. 0 \<le> j \<and> j < Node4.count n \<longrightarrow>
           index (Node4.keys n') j = index (Node4.keys n) j \<and>
           index (Node4.children n') j = index (Node4.children n) j"
    proof (intro allI impI)
      fix j assume j: "0 \<le> j \<and> j < Node4.count n"
      then have "nat j < nat (Node4.count n)" by auto
      then have "take (nat (Node4.count n)) (Node4.keys n') ! nat j = Node4.keys n' ! nat j"
        "take (nat (Node4.count n)) (Node4.keys n) ! nat j = Node4.keys n ! nat j"
        "take (nat (Node4.count n)) (Node4.children n') ! nat j = Node4.children n' ! nat j"
        "take (nat (Node4.count n)) (Node4.children n) ! nat j = Node4.children n ! nat j"
        by simp_all
      with other have "Node4.keys n' ! nat j = Node4.keys n ! nat j"
        "Node4.children n' ! nat j = Node4.children n ! nat j"
        by simp_all
      moreover have "length (Node4.keys n') = length (Node4.keys n)"
        "length (Node4.children n') = length (Node4.children n)"
        using other assms by (simp_all add: Node4_layout_def)
      ultimately show "index (Node4.keys n') j = index (Node4.keys n) j \<and>
           index (Node4.children n') j = index (Node4.children n) j"
        by (simp add: index_def)
    qed
    have "findChild_loop4 n' b 0 = findChild_loop4 n b 0"
      using other same by (intro loop4_cong) auto
    with unfold unfold' show "findChild tgt m' (Addr a') b = findChild tgt m (Addr a) b"
      by simp
  }
qed

theorem findChild_Node4_scan_witness:
  "cells (single (Obj_Node4 two_of_four)) 0 = Some (Obj_Node4 two_of_four) \<and>
   type (Node4.node two_of_four) = NODE4 \<and> Node4_layout two_of_four \<and>
   0 \<le> Node4.count two_of_four \<and> Node4.count two_of_four \<le> 4 \<and>
   findChild x86_64 (single (Obj_Node4 two_of_four)) (Addr 0) 9 = Inr (Addr 21) \<and>
   findChild x86_64 (single (Obj_Node4 two_of_four)) (Addr 0) 8 = Inr NULL"
proof -
  let ?m = "single (Obj_Node4 two_of_four)"
  have h: "cells ?m 0 = Some (Obj_Node4 two_of_four)" "type (Node4.node two_of_four) = NODE4"
    "Node4_layout two_of_four" "0 \<le> Node4.count two_of_four" "Node4.count two_of_four \<le> 4"
    by (simp_all add: single_def two_of_four_def Node4_layout_def MAX_PREFIX_LENGTH_def)
  note scan = findChild_Node4_scan [OF h]
  have "\<exists>i<nat (Node4.count two_of_four). Node4.keys two_of_four ! i = 9"
    by (rule exI [of _ 1]) (simp add: two_of_four_def)
  with scan [of 9 x86_64] obtain i where i: "i < nat (Node4.count two_of_four)"
    "Node4.keys two_of_four ! i = 9"
    "findChild x86_64 ?m (Addr 0) 9 = Inr (Node4.children two_of_four ! i)"
    by blast
  from i(1,2) have "i = 1"
    by (cases i) (simp_all add: two_of_four_def)
  with i(3) have found: "findChild x86_64 ?m (Addr 0) 9 = Inr (Addr 21)"
    by (simp add: two_of_four_def)
  have "\<forall>i<nat (Node4.count two_of_four). Node4.keys two_of_four ! i \<noteq> 8"
    by (simp add: two_of_four_def EMPTY_KEY_def less_Suc_eq numeral_2_eq_2 all_conj_distrib)
  with scan [of 8 x86_64] have "findChild x86_64 ?m (Addr 0) 8 = Inr NULL"
    by blast
  with h found show ?thesis by simp
qed

text \<open>
  \<^bold>\<open>C5.\<close> \<^verbatim>\<open>findChildBinary\<close> compares the stored byte and the query byte as \<^verbatim>\<open>char\<close>.
  Where \<^verbatim>\<open>char\<close> is signed, keys in ascending order of their values 0..255 are not in
  the order the search assumes: with the occupied keys 1, 200 the query 200 is reported
  absent.
\<close>

theorem findChildBinary_upper_half_counterexample:
  "Node16_layout upper_half_pair \<and> Node16.count upper_half_pair = 2 \<and>
   sorted (map uint (take 2 (Node16.keys upper_half_pair))) \<and>
   Node16.keys upper_half_pair ! 1 = 200 \<and>
   Node16.children upper_half_pair ! 1 = Addr 11 \<and>
   findChildBinary x86_64 upper_half_pair 200 = Inr NULL"
  by code_simp

text \<open>
  \<^bold>\<open>C5, amended.\<close> On a Node16 with count between 0 and 16 whose occupied key bytes are
  ascending in the order of the target's \<^verbatim>\<open>char\<close> type, \<^verbatim>\<open>findChildBinary\<close> returns the
  child of an occupied slot whose key byte is the query byte when there is one, and
  \<^verbatim>\<open>NULL\<close> otherwise, for every query byte 0..255.
\<close>

theorem findChildBinary_sorted_as_char:
  assumes "Node16_layout n" and "0 \<le> Node16.count n" and "Node16.count n \<le> 16"
    and "sorted (map (char_val tgt) (take (nat (Node16.count n)) (Node16.keys n)))"
  shows "((\<exists>i<nat (Node16.count n). Node16.keys n ! i = b) \<longrightarrow>
            (\<exists>i<nat (Node16.count n). Node16.keys n ! i = b \<and>
               findChildBinary tgt n b = Inr (Node16.children n ! i))) \<and>
         ((\<forall>i<nat (Node16.count n). Node16.keys n ! i \<noteq> b) \<longrightarrow>
            findChildBinary tgt n b = Inr NULL)"
proof -
  let ?c = "Node16.count n"
  have len: "?c \<le> int (length (Node16.keys n))" "?c \<le> int (length (Node16.children n))"
    using assms by (simp_all add: Node16_layout_def)
  have mono: "\<forall>i j. 0 \<le> i \<and> i \<le> j \<and> j < ?c \<longrightarrow>
      char_val tgt (Node16.keys n ! nat i) \<le> char_val tgt (Node16.keys n ! nat j)"
  proof (intro allI impI)
    fix i j :: int
    assume ij: "0 \<le> i \<and> i \<le> j \<and> j < ?c"
    let ?xs = "map (char_val tgt) (take (nat ?c) (Node16.keys n))"
    from ij len have "nat i \<le> nat j" "nat j < length ?xs" by auto
    with assms(4) have "?xs ! nat i \<le> ?xs ! nat j"
      by (simp only: sorted_nth_mono)
    with ij len show "char_val tgt (Node16.keys n ! nat i) \<le> char_val tgt (Node16.keys n ! nat j)"
      by auto
  qed
  have unfold: "findChildBinary tgt n b = findChildBinary_loop tgt n b 0 (?c - 1)"
    using assms(2) by (simp add: findChildBinary_def INT_MIN_def)
  from binary_loop_sorted [OF mono len, of 0 "?c - 1" b]
  consider (found) mid where "0 \<le> mid" "mid \<le> ?c - 1" "Node16.keys n ! nat mid = b"
      "findChildBinary_loop tgt n b 0 (?c - 1) = Inr (Node16.children n ! nat mid)"
    | (none) "\<forall>j. 0 \<le> j \<and> j \<le> ?c - 1 \<longrightarrow> Node16.keys n ! nat j \<noteq> b"
      "findChildBinary_loop tgt n b 0 (?c - 1) = Inr NULL"
    by auto
  then show ?thesis
  proof cases
    case found
    then have "nat mid < nat ?c" by auto
    moreover from found unfold
    have "findChildBinary tgt n b = Inr (Node16.children n ! nat mid)" by (simp only:)
    ultimately have "\<exists>i<nat ?c. Node16.keys n ! i = b \<and>
        findChildBinary tgt n b = Inr (Node16.children n ! i)"
      using found(3) by blast
    then show ?thesis by blast
  next
    case none
    have "\<forall>i<nat ?c. Node16.keys n ! i \<noteq> b"
    proof (intro allI impI)
      fix i assume "i < nat ?c"
      then have "0 \<le> int i \<and> int i \<le> ?c - 1" by auto
      with none(1) have "Node16.keys n ! nat (int i) \<noteq> b" by blast
      then show "Node16.keys n ! i \<noteq> b" by simp
    qed
    moreover from none(2) unfold have "findChildBinary tgt n b = Inr NULL" by (simp only:)
    ultimately show ?thesis by blast
  qed
qed

theorem findChildBinary_sorted_as_char_witness:
  "Node16_layout signed_order_pair \<and> 0 \<le> Node16.count signed_order_pair \<and>
   Node16.count signed_order_pair \<le> 16 \<and>
   sorted (map (char_val x86_64)
     (take (nat (Node16.count signed_order_pair)) (Node16.keys signed_order_pair))) \<and>
   findChildBinary x86_64 signed_order_pair 200 = Inr (Addr 11) \<and>
   findChildBinary x86_64 signed_order_pair 3 = Inr NULL"
proof -
  let ?n = signed_order_pair
  have h: "Node16_layout ?n" "0 \<le> Node16.count ?n" "Node16.count ?n \<le> 16"
    "sorted (map (char_val x86_64) (take (nat (Node16.count ?n)) (Node16.keys ?n)))"
    by code_simp+
  note search = findChildBinary_sorted_as_char [OF h]
  have c: "nat (Node16.count ?n) = 2" by code_simp
  have k: "Node16.keys ?n ! 0 = 200" "Node16.keys ?n ! 1 = 1"
    "Node16.children ?n ! 0 = Addr 11" by code_simp+
  have "\<exists>i<nat (Node16.count ?n). Node16.keys ?n ! i = 200"
    unfolding c using k(1) by (intro exI [of _ 0]) simp
  with search [of 200] obtain i where i: "i < 2" "Node16.keys ?n ! i = 200"
    "findChildBinary x86_64 ?n 200 = Inr (Node16.children ?n ! i)"
    unfolding c by blast
  from i(1) have "i = 0 \<or> i = 1" by auto
  with i(2) k have "i = 0" by auto
  with i(3) k have found: "findChildBinary x86_64 ?n 200 = Inr (Addr 11)"
    by simp
  have "\<forall>i<nat (Node16.count ?n). Node16.keys ?n ! i \<noteq> 3"
    unfolding c
  proof (intro allI impI)
    fix i :: nat assume "i < 2"
    then have "i = 0 \<or> i = 1" by auto
    with k show "Node16.keys ?n ! i \<noteq> 3" by auto
  qed
  with search [of 3] have "findChildBinary x86_64 ?n 3 = Inr NULL"
    by blast
  with h found show ?thesis by simp
qed

text \<open>
  \<^bold>\<open>C6.\<close> On a target with SSE2, a Node16 that stores a child under byte 0 in its first
  slot and has a second child reports byte 0 absent: only the slot \<open>count - 1\<close> passes the
  mask of \<^verbatim>\<open>findChildSSE\<close>. Without SSE2 the same node returns the child.
\<close>

theorem findChild_Node16_byte_0_absent_with_sse2:
  "Node16_layout zero_first \<and> Node16.count zero_first = 2 \<and>
   Node16.keys zero_first ! 0 = 0 \<and> Node16.children zero_first ! 0 = Addr 10 \<and>
   findChild x86_64 (single (Obj_Node16 zero_first)) (Addr 0) 0 = Inr NULL \<and>
   findChild i386_nosse (single (Obj_Node16 zero_first)) (Addr 0) 0 = Inr (Addr 10)"
  by code_simp

text \<open>
  \<^bold>\<open>C7.\<close> The Node48 \<open>table48\<close> is well-formed (its table holds the sentinel and the slot
  index 3, and slot 3 holds a child) and its table entry for byte 200 is the slot index
  3, not the sentinel; where \<^verbatim>\<open>char\<close> is signed \<^verbatim>\<open>findChild\<close> does not read that entry
  but indexes the table at \<open>-56\<close>.
\<close>

theorem findChild_Node48_entry_not_read_with_signed_char:
  "type (Node48.node table48) = NODE48 \<and> Node48_layout table48 \<and>
   set (Node48.keys table48) = {EMPTY_KEY, 3} \<and>
   Node48.keys table48 ! 200 = 3 \<and> (3 :: 8 word) \<noteq> EMPTY_KEY \<and>
   Node48.children table48 ! 3 = Addr 9 \<and>
   findChild x86_64 (single (Obj_Node48 table48)) (Addr 0) 200 = Inl OutOfBounds"
  by code_simp


text \<open>
  \<^bold>\<open>C9.\<close> The root \<^verbatim>\<open>createRootNode\<close> produces is a Node4 with count 0, every key slot
  holding the sentinel and every child pointer null, and \<^verbatim>\<open>findChild\<close> on it returns
  \<^verbatim>\<open>NULL\<close> for every byte, on every target.
\<close>

theorem findChild_createRootNode_absent:
  assumes "createRootNode m = (Addr r, m')"
  shows "\<exists>n. cells m' r = Some (Obj_Node4 n) \<and> type (Node4.node n) = NODE4 \<and>
           Node4.count n = 0 \<and> Node4.keys n = replicate 4 EMPTY_KEY \<and>
           Node4.children n = replicate 4 NULL \<and>
           findChild tgt m' (Addr r) b = Inr NULL"
proof -
  from assms have root: "cells m' r = Some (Obj_Node4 empty_Node4)"
    by (auto simp: createRootNode_cases split: if_splits)
  then have "findChild tgt m' (Addr r) b = Inr NULL"
    by (rule findChild_empty_Node4)
  with root show ?thesis
    by (simp add: empty_Node4_def numeral_eq_Suc)
qed

theorem findChild_createRootNode_absent_witness:
  "createRootNode (fresh 1) = (Addr 0, single (Obj_Node4 empty_Node4)) \<and>
   (\<exists>n. cells (single (Obj_Node4 empty_Node4)) 0 = Some (Obj_Node4 n) \<and>
         type (Node4.node n) = NODE4 \<and> Node4.count n = 0 \<and>
         Node4.keys n = replicate 4 EMPTY_KEY \<and> Node4.children n = replicate 4 NULL \<and>
         findChild x86_64 (single (Obj_Node4 empty_Node4)) (Addr 0) 255 = Inr NULL)"
proof -
  have made: "createRootNode (fresh 1) = (Addr 0, single (Obj_Node4 empty_Node4))"
    by (simp add: createRootNode_cases fresh_def single_def)
  from made findChild_createRootNode_absent [OF made, of x86_64 255] show ?thesis
    by (rule conjI)
qed

text \<open>
  \<^bold>\<open>C10.\<close> When the tag of the node is \<^verbatim>\<open>LEAF\<close>, or any value that is none of
  \<^verbatim>\<open>NODE4\<close>, \<^verbatim>\<open>NODE16\<close>, \<^verbatim>\<open>NODE48\<close>, \<^verbatim>\<open>NODE256\<close>, \<^verbatim>\<open>findChild\<close> returns \<^verbatim>\<open>NULL\<close>
  for every byte: no branch casts the node to an inner-node struct.
\<close>

theorem findChild_non_inner_absent:
  assumes "cells m a = Some x" and "header x = Some h"
    and "type h = LEAF \<or> type h \<notin> {NODE4, NODE16, NODE48, NODE256}"
  shows "findChild tgt m (Addr a) b = Inr NULL"
  using assms by (auto simp: findChild_def NodeType_defs)

theorem findChild_non_inner_absent_witness:
  "cells (single (Obj_Leaf some_leaf)) 0 = Some (Obj_Leaf some_leaf) \<and>
   header (Obj_Leaf some_leaf) = Some \<lparr>type = LEAF\<rparr> \<and>
   (type \<lparr>type = LEAF\<rparr> = LEAF \<or> type \<lparr>type = LEAF\<rparr> \<notin> {NODE4, NODE16, NODE48, NODE256}) \<and>
   findChild aarch64 (single (Obj_Leaf some_leaf)) (Addr 0) 7 = Inr NULL"
proof -
  have 1: "cells (single (Obj_Leaf some_leaf)) 0 = Some (Obj_Leaf some_leaf)"
    by (simp add: single_def)
  have 2: "header (Obj_Leaf some_leaf) = Some \<lparr>type = LEAF\<rparr>"
    by (simp add: some_leaf_def)
  have 3: "type \<lparr>type = LEAF\<rparr> = LEAF \<or> type \<lparr>type = LEAF\<rparr> \<notin> {NODE4, NODE16, NODE48, NODE256}"
    by simp
  from 1 2 3 findChild_non_inner_absent [OF 1 2 3, of aarch64 7] show ?thesis
    by simp
qed

end
